theory Spec2Isabelle
  imports Complex_Main "HOL-Library.Char_ord" "HOL-Library.List_Lexorder" "HOL-Library.Log_Nat"
begin

section \<open>Representational similarity analysis notebook (fmri-5-rsa)\<close>

text \<open>
  The notebook's own code is short: the list of stimulus categories, the three hand-built
  model RDMs (animacy, tools, real-world size), the row/column reordering used for the
  heat maps, and \<open>rank_percentile\<close>. Everything else is a call into SciPy
  (\<open>pdist\<close>, \<open>squareform\<close>, \<open>spearmanr\<close>, \<open>rankdata\<close>); those routines are
  not part of the repository and are modelled here from the specification's description
  of them, each marked as such.

  Python floats are modelled as exact real numbers: a decimal literal such as \<open>.35\<close>
  is the real number \<open>35/100\<close>. The one place where the rounding of IEEE doubles decides
  a property, the value of the first entry of the size RDM, is modelled a second time in
  binary64 arithmetic (\<open>rdm_size_double\<close>).
\<close>

subsection \<open>Errors\<close>

datatype py_error = IndexError | ValueError

subsection \<open>Stimulus categories\<close>

text \<open>
  \<^verbatim>\<open>categories = np.array([c for c in np.unique(stimuli) if c != 'rest'])\<close>

  \<open>np.unique\<close> returns the sorted distinct elements of its argument.
\<close>

definition np_unique :: "'a::linorder list \<Rightarrow> 'a list" where
  "np_unique xs = sort (remdups xs)"

definition categories :: "string list \<Rightarrow> string list" where
  "categories stimuli = filter (\<lambda>c. c \<noteq> ''rest'') (np_unique stimuli)"

text \<open>The condition labels of the session file of the object-recognition dataset.\<close>

definition haxby_labels :: "string list" where
  "haxby_labels = [''rest'', ''scissors'', ''face'', ''cat'', ''shoe'', ''house'',
     ''scrambledpix'', ''bottle'', ''chair'']"

subsection \<open>Pairs of a sequence, in the order of \<open>itertools.combinations\<close>\<close>

text \<open>
  \<open>combinations(xs, 2)\<close> yields the pairs of elements of \<open>xs\<close> at positions
  \<open>i < j\<close>: first every pair with the first element, then the pairs of the rest.
\<close>

fun combinations2 :: "'a list \<Rightarrow> ('a \<times> 'a) list" where
  "combinations2 [] = []"
| "combinations2 (x # xs) = map (Pair x) xs @ combinations2 xs"

subsection \<open>The real-world size RDM\<close>

text \<open>
  \<^verbatim>\<open>
  sizes = [.3, .35, .2, .2, .1, .5, 1, 0]
  rdm_size = []
  for pair in combinations(sizes, 2):
      rdm_size.append(np.abs(pair[0] - pair[1]))
  \<close>
  The loop appends one entry per pair to the list built so far.
\<close>

text \<open>
  \<open>sizes\<close> holds the literals as exact reals; \<open>sizes_double\<close> below holds the floats
  they denote.
\<close>

definition sizes :: "real list" where
  "sizes = [3/10, 35/100, 2/10, 2/10, 1/10, 5/10, 1, 0]"

fun size_loop :: "(real \<times> real) list \<Rightarrow> real list \<Rightarrow> real list" where
  "size_loop [] acc = acc"
| "size_loop (pair # rest) acc = size_loop rest (acc @ [\<bar>fst pair - snd pair\<bar>])"

definition rdm_size_of :: "real list \<Rightarrow> real list" where
  "rdm_size_of xs = size_loop (combinations2 xs) []"

definition rdm_size :: "real list" where
  "rdm_size = rdm_size_of sizes"

subsection \<open>The size RDM in binary64 arithmetic\<close>

text \<open>
  A Python float is an IEEE-754 binary64 number: a significand of 53 bits and a power of
  two. A decimal literal denotes the binary64 number nearest to it, and \<open>a - b\<close> is the
  binary64 number nearest to the exact difference; a tie goes to the even significand.
  \<open>np.abs\<close> is exact.

  \<open>exponent2 x\<close> is the \<open>e\<close> with \<open>2^e \<le> x < 2^(e+1)\<close> for \<open>x > 0\<close>, found from the bit
  lengths of numerator and denominator. \<open>binary64 x\<close> rounds \<open>x\<close> to a multiple of
  \<open>2^(e-52)\<close>; below \<open>2^-1022\<close> the spacing is that of the subnormal numbers. A magnitude
  of \<open>2^1024\<close> or more rounds to infinity, which is not represented here: the sizes and
  their differences stay below 2.
\<close>

definition round_half_even :: "rat \<Rightarrow> int" where
  "round_half_even q =
     (let f = \<lfloor>q\<rfloor>; r = q - of_int f in
      if r < 1/2 then f else if 1/2 < r then f + 1 else if even f then f else f + 1)"







subsection \<open>The dissimilarity computer (SciPy's \<open>pdist\<close>)\<close>

text \<open>
  Modelled from the spec: \<open>pdist\<close> is a SciPy routine, imported by the notebook and not
  part of the repository. The specification (4.2) describes it: the input is an ordered
  collection of N response patterns and a distance kind, the output the distances over all
  pairs \<open>(i, j)\<close> with \<open>i < j\<close>, ordered by \<open>i\<close> and then by \<open>j\<close>. The model is
  the double loop over \<open>i\<close> and \<open>j\<close>; the distance is a parameter.
\<close>

definition pairs :: "nat \<Rightarrow> (nat \<times> nat) list" where
  "pairs n = concat (map (\<lambda>i. map (Pair i) [Suc i..<n]) [0..<n])"

definition pdist :: "('a \<Rightarrow> 'a \<Rightarrow> 'b) \<Rightarrow> 'a list \<Rightarrow> 'b list" where
  "pdist metric X = map (\<lambda>(i, j). metric (X ! i) (X ! j)) (pairs (length X))"

text \<open>
  The position of the pair \<open>(i, j)\<close>, \<open>i < j < n\<close>, in the vectorized triangle of an
  \<open>n \<times> n\<close> matrix.
\<close>

definition condensed_index :: "nat \<Rightarrow> nat \<Rightarrow> nat \<Rightarrow> nat" where
  "condensed_index n i j = n * i + j - ((i + 2) * (i + 1)) div 2"

text \<open>The order of the pairs: by the first index, then by the second.\<close>

definition lex_less :: "nat \<times> nat \<Rightarrow> nat \<times> nat \<Rightarrow> bool" where
  "lex_less p q = (fst p < fst q \<or> (fst p = fst q \<and> snd p < snd q))"

text \<open>The number subtracted in \<open>condensed_index\<close>.\<close>

definition tri :: "nat \<Rightarrow> nat" where
  "tri i = ((i + 2) * (i + 1)) div 2"

subsection \<open>Distances between two response patterns\<close>

text \<open>
  Modelled from the spec: the two distance kinds of \<open>pdist\<close> (SciPy, not part of the
  repository). The specification (4.2): correlation distance is 1 minus the Pearson
  correlation of the two vectors, undefined for a pattern of zero variance; Euclidean
  distance is the L2 norm of the difference. An undefined value is \<open>None\<close>; how the
  library reports it to its caller is not modelled.
  A pattern is a row of a two-dimensional array, so two patterns have the same length.
\<close>

definition mean :: "real list \<Rightarrow> real" where
  "mean u = sum_list u / real (length u)"

definition centered :: "real list \<Rightarrow> real list" where
  "centered u = map (\<lambda>a. a - mean u) u"

definition dot :: "real list \<Rightarrow> real list \<Rightarrow> real" where
  "dot u v = sum_list (map2 (*) u v)"

definition variance :: "real list \<Rightarrow> real" where
  "variance u = dot (centered u) (centered u) / real (length u)"

definition pearsonr :: "real list \<Rightarrow> real list \<Rightarrow> real option" where
  "pearsonr u v =
     (let um = centered u; vm = centered v in
      if dot um um = 0 \<or> dot vm vm = 0 then None
      else Some (dot um vm / sqrt (dot um um * dot vm vm)))"

definition correlation :: "real list \<Rightarrow> real list \<Rightarrow> real option" where
  "correlation u v = (case pearsonr u v of None \<Rightarrow> None | Some r \<Rightarrow> Some (1 - r))"

definition euclidean :: "real list \<Rightarrow> real list \<Rightarrow> real" where
  "euclidean u v = sqrt (sum_list (map (\<lambda>d. d * d) (map2 (-) u v)))"

subsection \<open>The animacy and tool RDMs\<close>

text \<open>
  \<^verbatim>\<open>
  rdm_animacy = np.ones(len(rdm_vt))
  rdm_animacy[8] = .5

  rdm_tools = np.ones(len(rdm_vt))
  rdm_tools[[4, 6, 26]] = .5
  \<close>
  \<open>rdm_vt\<close> is the neural RDM; the notebook leaves its computation to the reader, so
  it is a parameter here. An index beyond the end of the array raises \<open>IndexError\<close>.
\<close>

definition np_ones :: "nat \<Rightarrow> real list" where
  "np_ones n = replicate n 1"

definition set_item :: "'a list \<Rightarrow> nat \<Rightarrow> 'a \<Rightarrow> py_error + 'a list" where
  "set_item a i v = (if i < length a then Inr (a[i := v]) else Inl IndexError)"

definition set_items :: "'a list \<Rightarrow> nat list \<Rightarrow> 'a \<Rightarrow> py_error + 'a list" where
  "set_items a idx v =
     (if list_all (\<lambda>i. i < length a) idx then Inr (fold (\<lambda>i b. b[i := v]) idx a)
      else Inl IndexError)"

definition rdm_animacy :: "'a list \<Rightarrow> py_error + real list" where
  "rdm_animacy rdm_vt = set_item (np_ones (length rdm_vt)) 8 (1/2)"

definition rdm_tools :: "'a list \<Rightarrow> py_error + real list" where
  "rdm_tools rdm_vt = set_items (np_ones (length rdm_vt)) [4, 6, 26] (1/2)"

subsection \<open>Square form of an RDM (SciPy's \<open>squareform\<close>)\<close>

text \<open>
  Modelled from the spec: \<open>squareform\<close> is a SciPy routine, imported by the notebook and
  not part of the repository. The specification (3) describes the two forms of an RDM: the
  symmetric \<open>N \<times> N\<close> matrix with zero diagonal, and the vectorized upper triangle of
  length \<open>N (N - 1) / 2\<close>. Given a vector, \<open>squareform\<close> finds \<open>N\<close> from the length
  (refusing a length that is not of that form) and writes each entry into the two cells of
  its pair, in the order of the pairs; given a square matrix, it checks that the matrix is
  symmetric with a zero diagonal and reads the upper triangle in the same order. The empty
  vector becomes the \<open>1 \<times> 1\<close> zero matrix.
\<close>

datatype 'a ndarray = Vec "'a list" | Mat "'a list list"

definition ceil_sqrt :: "nat \<Rightarrow> nat" where
  "ceil_sqrt k = length (takeWhile (\<lambda>d. d * d < k) [0..<Suc k])"

definition put :: "'a list list \<Rightarrow> nat \<Rightarrow> nat \<Rightarrow> 'a \<Rightarrow> 'a list list" where
  "put M i j x = M[i := (M ! i)[j := x]]"

fun fill :: "((nat \<times> nat) \<times> 'a) list \<Rightarrow> 'a list list \<Rightarrow> 'a list list" where
  "fill [] M = M"
| "fill (((i, j), x) # rest) M = fill rest (put (put M i j x) j i x)"

definition to_squareform_from_vector :: "nat \<Rightarrow> 'a::zero list \<Rightarrow> 'a list list" where
  "to_squareform_from_vector d v = fill (zip (pairs d) v) (replicate d (replicate d 0))"

definition to_vector_from_squareform :: "'a list list \<Rightarrow> 'a list" where
  "to_vector_from_squareform M = map (\<lambda>(i, j). M ! i ! j) (pairs (length M))"

definition is_square :: "'a list list \<Rightarrow> bool" where
  "is_square M = list_all (\<lambda>row. length row = length M) M"

definition is_symmetric :: "'a list list \<Rightarrow> bool" where
  "is_symmetric M = list_all (\<lambda>i. list_all (\<lambda>j. M ! i ! j = M ! j ! i) [0..<length M]) [0..<length M]"

definition zero_diagonal :: "'a::zero list list \<Rightarrow> bool" where
  "zero_diagonal M = list_all (\<lambda>i. M ! i ! i = 0) [0..<length M]"

fun squareform :: "'a::zero ndarray \<Rightarrow> py_error + 'a ndarray" where
  "squareform (Vec v) =
     (if length v = 0 then Inr (Mat [[0]])
      else let d = ceil_sqrt (length v * 2) in
        if d * (d - 1) \<noteq> length v * 2 then Inl ValueError
        else Inr (Mat (to_squareform_from_vector d v)))"
| "squareform (Mat X) =
     (if \<not> is_square X then Inl ValueError
      else if \<not> is_symmetric X then Inl ValueError
      else if \<not> zero_diagonal X then Inl ValueError
      else if length X \<le> 1 then Inr (Vec [])
      else Inr (Vec (to_vector_from_squareform X)))"

text \<open>
  \<^verbatim>\<open>
  reorder = [3, 1, 0, 7, 5, 2, 4, 6]
  sns.heatmap(squareform(rdms[rdm])[reorder][:, reorder], ...)
  \<close>
  Rows, then columns, are selected by the index list; an index beyond the matrix raises
  \<open>IndexError\<close>.
\<close>

definition reorder :: "nat list" where
  "reorder = [3, 1, 0, 7, 5, 2, 4, 6]"

definition take_rows :: "'a list \<Rightarrow> nat list \<Rightarrow> py_error + 'a list" where
  "take_rows M idx =
     (if list_all (\<lambda>i. i < length M) idx then Inr (map (\<lambda>i. M ! i) idx) else Inl IndexError)"

definition take_cols :: "'a list list \<Rightarrow> nat list \<Rightarrow> py_error + 'a list list" where
  "take_cols M idx =
     (if list_all (\<lambda>row. list_all (\<lambda>j. j < length row) idx) M
      then Inr (map (\<lambda>row. map (\<lambda>j. row ! j) idx) M) else Inl IndexError)"

definition reordered :: "'a list list \<Rightarrow> nat list \<Rightarrow> py_error + 'a list list" where
  "reordered M idx = (case take_rows M idx of Inl e \<Rightarrow> Inl e | Inr R \<Rightarrow> take_cols R idx)"

subsection \<open>Ranks and rank correlation (SciPy's \<open>rankdata\<close> and \<open>spearmanr\<close>)\<close>

text \<open>
  Modelled from the spec: \<open>rankdata\<close> and \<open>spearmanr\<close> are SciPy routines, imported by the
  notebook and not part of the repository. The specification (4.3): the comparator is the
  Spearman rank correlation, with average ranks for ties; it is the Pearson correlation of
  the two arrays of ranks. The rank of an entry is the average of the positions its tie
  group takes in sorted order, counted from 1.
\<close>

definition rankdata :: "'a::linorder list \<Rightarrow> real list" where
  "rankdata a =
     map (\<lambda>x. real (length (filter (\<lambda>y. y < x) a))
             + (real (length (filter (\<lambda>y. y = x) a)) + 1) / 2) a"

definition spearmanr :: "'a::linorder list \<Rightarrow> 'a list \<Rightarrow> real option" where
  "spearmanr a b = pearsonr (rankdata a) (rankdata b)"

text \<open>
  \<^verbatim>\<open>
  def rank_percentile(a):
      return rankdata(a) / len(a) * 100
  \<close>
  The division and the multiplication act on every entry of the array of ranks.
\<close>

definition rank_percentile :: "'a::linorder list \<Rightarrow> real list" where
  "rank_percentile a = map (\<lambda>r. r / real (length a) * 100) (rankdata a)"

section \<open>Properties\<close>

subsection \<open>Pairs and their order\<close>

lemma size_loop_acc: "size_loop ps acc = acc @ map (\<lambda>pair. \<bar>fst pair - snd pair\<bar>) ps"
  by (induction ps arbitrary: acc) simp_all

lemma rdm_size_of_map:
  "rdm_size_of xs = map (\<lambda>pair. \<bar>fst pair - snd pair\<bar>) (combinations2 xs)"
  by (simp add: rdm_size_of_def size_loop_acc)

lemma combinations2_map: "combinations2 (map f xs) = map (map_prod f f) (combinations2 xs)"
  by (induction xs) simp_all

lemma combinations2_upt: "combinations2 [m..<n] = concat (map (\<lambda>i. map (Pair i) [Suc i..<n]) [m..<n])"
proof (induction "n - m" arbitrary: m)
  case 0
  then show ?case by simp
next
  case (Suc k)
  then have lt: "m < n" and k: "k = n - Suc m" by simp_all
  from lt have "[m..<n] = m # [Suc m..<n]" by (rule upt_conv_Cons)
  then show ?case using Suc.hyps(1)[OF k] by simp
qed

lemma pairs_combinations2: "pairs n = combinations2 [0..<n]"
  by (simp add: pairs_def combinations2_upt)

lemma combinations2_nth:
  "combinations2 xs = map (\<lambda>(i, j). (xs ! i, xs ! j)) (pairs (length xs))"
proof -
  have "combinations2 xs = combinations2 (map ((!) xs) [0..<length xs])"
    by (simp add: map_nth)
  also have "\<dots> = map (map_prod ((!) xs) ((!) xs)) (pairs (length xs))"
    by (simp only: combinations2_map pairs_combinations2)
  also have "\<dots> = map (\<lambda>(i, j). (xs ! i, xs ! j)) (pairs (length xs))"
    by (rule map_cong) auto
  finally show ?thesis .
qed

lemma length_combinations2_twice: "2 * length (combinations2 xs) = length xs * (length xs - 1)"
proof (induction xs)
  case Nil
  then show ?case by simp
next
  case (Cons x xs)
  show ?case
  proof (cases xs)
    case Nil
    then show ?thesis by simp
  next
    case (Cons y ys)
    with Cons.IH show ?thesis by (simp add: algebra_simps)
  qed
qed

lemma length_combinations2: "length (combinations2 xs) = length xs * (length xs - 1) div 2"
  using length_combinations2_twice[of xs] by simp

lemma length_pairs: "length (pairs n) = n * (n - 1) div 2"
  by (simp add: pairs_combinations2 length_combinations2)

lemma set_combinations2_subset: "(a, b) \<in> set (combinations2 xs) \<Longrightarrow> a \<in> set xs \<and> b \<in> set xs"
  by (induction xs) auto

lemma sorted_combinations2:
  "sorted_wrt (<) (xs :: nat list) \<Longrightarrow> sorted_wrt lex_less (combinations2 xs)"
proof (induction xs)
  case Nil
  then show ?case by simp
next
  case (Cons x xs)
  then have sx: "sorted_wrt (<) xs" and xl: "\<forall>y\<in>set xs. x < y" by simp_all
  have 1: "sorted_wrt lex_less (map (Pair x) xs)"
    using sx by (simp add: sorted_wrt_map lex_less_def)
  have 2: "\<forall>p\<in>set (map (Pair x) xs). \<forall>q\<in>set (combinations2 xs). lex_less p q"
    using xl by (auto simp: lex_less_def dest: set_combinations2_subset)
  show ?case using 1 2 Cons.IH[OF sx] by (simp add: sorted_wrt_append)
qed

lemma set_combinations2_sorted:
  "sorted_wrt (<) (xs :: nat list) \<Longrightarrow> set (combinations2 xs) = {(a, b). a \<in> set xs \<and> b \<in> set xs \<and> a < b}"
  by (induction xs) auto

lemma sorted_pairs: "sorted_wrt lex_less (pairs n)"
  by (simp add: pairs_combinations2 sorted_combinations2 sorted_wrt_upt)

lemma set_pairs: "set (pairs n) = {(i, j). i < j \<and> j < n}"
  by (auto simp: pairs_combinations2 set_combinations2_sorted)

lemma tri_0: "tri 0 = 1" by (simp add: tri_def)

lemma tri_Suc: "tri (Suc i) = tri i + i + 2"
proof -
  have "(Suc i + 2) * (Suc i + 1) = (i + 2) * (i + 1) + 2 * (i + 2)" by (simp add: algebra_simps)
  then show ?thesis by (simp add: tri_def)
qed

lemma tri_le: "i < j \<Longrightarrow> j < n \<Longrightarrow> tri i \<le> n * i + j"
proof (induction i)
  case 0
  then show ?case by (simp add: tri_0)
next
  case (Suc i)
  then have "tri i \<le> n * i + j" by simp
  moreover have "i + 2 \<le> n" using Suc.prems by simp
  ultimately show ?case by (simp add: tri_Suc)
qed

lemma condensed_index_0: "condensed_index n 0 j = j - 1"
  by (simp add: condensed_index_def)

lemma condensed_index_Suc:
  assumes "i < j" "j < n"
  shows "condensed_index (Suc n) (Suc i) (Suc j) = n + condensed_index n i j"
proof -
  have "tri i \<le> n * i + j" using assms by (rule tri_le)
  then show ?thesis
    unfolding condensed_index_def tri_def[symmetric] by (simp add: tri_Suc)
qed

lemma combinations2_condensed:
  "i < j \<Longrightarrow> j < length xs \<Longrightarrow>
    condensed_index (length xs) i j < length (combinations2 xs) \<and>
    combinations2 xs ! condensed_index (length xs) i j = (xs ! i, xs ! j)"
proof (induction xs arbitrary: i j)
  case Nil
  then show ?case by simp
next
  case (Cons x xs)
  show ?case
  proof (cases i)
    case 0
    with Cons.prems obtain j' where j: "j = Suc j'" "j' < length xs"
      by (cases j) auto
    with 0 show ?thesis by (simp add: condensed_index_0 nth_append)
  next
    case (Suc i')
    with Cons.prems obtain j' where j: "j = Suc j'" "i' < j'" "j' < length xs"
      by (cases j) auto
    from Cons.IH[OF j(2,3)] Suc j show ?thesis
      by (simp add: condensed_index_Suc nth_append)
  qed
qed

lemma pairs_condensed:
  assumes "i < j" "j < n"
  shows "condensed_index n i j < length (pairs n)" "pairs n ! condensed_index n i j = (i, j)"
  using combinations2_condensed[of i j "[0..<n]"] assms by (simp_all add: pairs_combinations2)

subsection \<open>Lengths and order of the RDMs\<close>

lemma length_pdist: "length (pdist metric X) = length X * (length X - 1) div 2"
  by (simp add: pdist_def length_pairs)

lemma length_rdm_size_of: "length (rdm_size_of xs) = length xs * (length xs - 1) div 2"
  by (simp add: rdm_size_of_map length_combinations2)

lemma length_set_item: "set_item a i v = Inr b \<Longrightarrow> length b = length a"
  by (auto simp: set_item_def split: if_splits)

lemma length_fold_upd: "length (fold (\<lambda>i b. b[i := v]) idx a) = length a"
  by (induction idx arbitrary: a) simp_all

lemma length_set_items: "set_items a idx v = Inr b \<Longrightarrow> length b = length a"
  by (auto simp: set_items_def length_fold_upd split: if_splits)

text \<open>
  Claim C1. The size RDM built from a list of N sizes has exactly \<open>N (N - 1) / 2\<close>
  entries, 28 for the notebook's list of 8 sizes; the animacy and tool RDMs, when their
  index assignments succeed, have the length of the neural RDM they are sized from. For N
  response patterns the vectorized dissimilarity array has exactly \<open>N (N - 1) / 2\<close>
  entries, 28 for \<open>N = 8\<close> and 4560 for \<open>N = 96\<close>.
\<close>

theorem rdm_length:
  "length (rdm_size_of xs) = length xs * (length xs - 1) div 2
   \<and> length sizes = 8 \<and> length rdm_size = 28
   \<and> (\<forall>a. rdm_animacy (pdist metric X) = Inr a \<longrightarrow> length a = length X * (length X - 1) div 2)
   \<and> (\<forall>t. rdm_tools (pdist metric X) = Inr t \<longrightarrow> length t = length X * (length X - 1) div 2)
   \<and> length (pdist metric X) = length X * (length X - 1) div 2
   \<and> (length X = 8 \<longrightarrow> length (pdist metric X) = 28)
   \<and> (length X = 96 \<longrightarrow> length (pdist metric X) = 4560)"
proof -
  have 1: "length (pdist metric X) = length X * (length X - 1) div 2"
    by (rule length_pdist)
  have 2: "length sizes = 8" by (simp add: sizes_def)
  have 3: "length rdm_size = 28" by (simp add: rdm_size_def length_rdm_size_of 2)
  have 4: "rdm_animacy (pdist metric X) = Inr a \<longrightarrow> length a = length X * (length X - 1) div 2" for a
    by (auto simp: rdm_animacy_def np_ones_def length_pdist dest: length_set_item)
  have 5: "rdm_tools (pdist metric X) = Inr t \<longrightarrow> length t = length X * (length X - 1) div 2" for t
    by (auto simp: rdm_tools_def np_ones_def length_pdist dest: length_set_items)
  show ?thesis using 1 2 3 4 5 by (simp add: length_rdm_size_of)
qed

lemma rdm_animacy_28: "length v = 28 \<Longrightarrow> rdm_animacy v = Inr ((replicate 28 1)[8 := 1/2])"
  by (simp add: rdm_animacy_def set_item_def np_ones_def)

lemma rdm_tools_28: "length v = 28 \<Longrightarrow> rdm_tools v = Inr ((replicate 28 1)[4 := 1/2, 6 := 1/2, 26 := 1/2])"
  by (simp add: rdm_tools_def set_items_def np_ones_def)

theorem rdm_length_witness:
  "length sizes = 8 \<and> length (pdist (\<lambda>u v. \<bar>u - v\<bar>) sizes) = 28
   \<and> (\<exists>a. rdm_animacy (pdist (\<lambda>u v. \<bar>u - v\<bar>) sizes) = Inr a \<and> length a = 28)
   \<and> (\<exists>t. rdm_tools (pdist (\<lambda>u v. \<bar>u - v\<bar>) sizes) = Inr t \<and> length t = 28)"
proof -
  have 8: "length sizes = 8" by (simp add: sizes_def)
  have 28: "length (pdist (\<lambda>u v. \<bar>u - v\<bar>) sizes) = 28"
    using rdm_length[of "[]" "\<lambda>u v. \<bar>u - v\<bar>" sizes] 8 by simp
  show ?thesis using 8 28 rdm_animacy_28[OF 28] rdm_tools_28[OF 28]
      rdm_length[of "[]" "\<lambda>u v. \<bar>u - v\<bar>" sizes] by simp
qed

lemma pdist_nth:
  "i < j \<Longrightarrow> j < length X \<Longrightarrow> pdist metric X ! condensed_index (length X) i j = metric (X ! i) (X ! j)"
  using pairs_condensed[of i j "length X"] by (simp add: pdist_def)

lemma rdm_size_of_pairs:
  "rdm_size_of xs = map (\<lambda>(i, j). \<bar>xs ! i - xs ! j\<bar>) (pairs (length xs))"
  by (simp add: rdm_size_of_map combinations2_nth case_prod_unfold)

text \<open>
  Claim C3. The size RDM built with \<open>combinations(sizes, 2)\<close> lists
  \<open>|sizes[i] - sizes[j]|\<close> over the pairs \<open>(i, j)\<close>, \<open>i < j < N\<close>, ordered by \<open>i\<close> and
  then by \<open>j\<close>: the list of pairs is strictly increasing in that order and holds exactly
  those pairs. The vectorized distances follow the same order, and the distance of the
  pair \<open>(i, j)\<close> stands at position \<open>condensed_index N i j\<close>.
\<close>

theorem canonical_order:
  "rdm_size_of xs = map (\<lambda>(i, j). \<bar>xs ! i - xs ! j\<bar>) (pairs (length xs))
   \<and> rdm_size = map (\<lambda>(i, j). \<bar>sizes ! i - sizes ! j\<bar>) (pairs 8)
   \<and> sorted_wrt lex_less (pairs n)
   \<and> set (pairs n) = {(i, j). i < j \<and> j < n}
   \<and> pdist metric X = map (\<lambda>(i, j). metric (X ! i) (X ! j)) (pairs (length X))
   \<and> (\<forall>i j. i < j \<and> j < length X \<longrightarrow>
        pdist metric X ! condensed_index (length X) i j = metric (X ! i) (X ! j))"
proof -
  have "rdm_size = map (\<lambda>(i, j). \<bar>sizes ! i - sizes ! j\<bar>) (pairs (length sizes))"
    unfolding rdm_size_def by (rule rdm_size_of_pairs)
  moreover have "length sizes = 8" by (simp add: sizes_def)
  ultimately show ?thesis
    by (simp add: sorted_pairs set_pairs pdist_nth rdm_size_of_pairs) (simp add: pdist_def)
qed

theorem canonical_order_witness:
  "pairs 3 = [(0, 1), (0, 2), (1, 2)]
   \<and> sorted_wrt lex_less [(0, 1), (0, 2), (1, 2)]
   \<and> (0::nat) < 2 \<and> (2::nat) < length [10, 20, 40 :: real]
   \<and> condensed_index 3 0 2 = 1
   \<and> pdist (\<lambda>u v. \<bar>u - v\<bar>) [10, 20, 40 :: real] ! 1 = 30
   \<and> rdm_size_of [10, 20, 40] = [10, 30, 20]"
proof -
  let ?X = "[10, 20, 40 :: real]"
  let ?m = "\<lambda>u v :: real. \<bar>u - v\<bar>"
  have len: "length ?X = 3" by simp
  note th = canonical_order[of ?X 3 ?m ?X, unfolded len]
  have p3: "pairs 3 = [(0, 1), (0, 2), (1, 2)]" by (simp add: pairs_def upt_rec)
  have ci: "condensed_index 3 0 2 = 1" by (simp add: condensed_index_def)
  have 1: "sorted_wrt lex_less [(0, 1), (0, 2), (1, 2)]"
    using th[THEN conjunct2, THEN conjunct2, THEN conjunct1] by (simp only: p3)
  have "(0::nat) < 2 \<and> (2::nat) < 3 \<longrightarrow>
      pdist ?m ?X ! condensed_index 3 0 2 = ?m (?X ! 0) (?X ! 2)"
    using th[THEN conjunct2, THEN conjunct2, THEN conjunct2, THEN conjunct2, THEN conjunct2]
    by blast
  then have 2: "pdist ?m ?X ! 1 = 30" unfolding ci by simp
  have "rdm_size_of ?X = map (\<lambda>(i, j). \<bar>?X ! i - ?X ! j\<bar>) (pairs 3)"
    using th[THEN conjunct1] .
  then have 3: "rdm_size_of ?X = [10, 30, 20]" unfolding p3 by simp
  show ?thesis using p3 1 2 3 ci by simp
qed

subsection \<open>The first entry of the size RDM\<close>




lemma round_half_even_of_int: "round_half_even (of_int n) = n"
  by (simp add: round_half_even_def)
















subsection \<open>The hand-built model RDMs\<close>

lemma np_unique_set: "set xs = set ys \<Longrightarrow> np_unique xs = np_unique ys"
  by (simp add: np_unique_def sorted_list_of_set_sort_remdups[symmetric])

lemma categories_haxby:
  "categories haxby_labels =
     [''bottle'', ''cat'', ''chair'', ''face'', ''house'', ''scissors'', ''scrambledpix'', ''shoe'']"
  by code_simp

lemma categories_set:
  "set stimuli = set haxby_labels \<Longrightarrow> categories stimuli =
     [''bottle'', ''cat'', ''chair'', ''face'', ''house'', ''scissors'', ''scrambledpix'', ''shoe'']"
  using categories_haxby np_unique_set[of stimuli haxby_labels] by (simp add: categories_def)

lemma pairs_8:
  "pairs 8 ! 8 = (1, 3) \<and> pairs 8 ! 4 = (0, 5) \<and> pairs 8 ! 6 = (0, 7) \<and> pairs 8 ! 26 = (5, 7)"
  by (simp add: pairs_def upt_rec)

lemma animacy_entries:
  "k < 28 \<Longrightarrow> (replicate 28 (1::real))[8 := 1/2] ! k = (if k = 8 then 1/2 else 1)"
  by (simp add: nth_list_update)

lemma tools_entries:
  "k < 28 \<Longrightarrow> (replicate 28 (1::real))[4 := 1/2, 6 := 1/2, 26 := 1/2] ! k
      = (if k = 4 \<or> k = 6 \<or> k = 26 then 1/2 else 1)"
  by (simp add: nth_list_update)

text \<open>
  Claim C9. With a neural RDM over the 8 categories, the animacy and tool RDMs are vectors
  of its length (28) with entries in \<open>{1, 0.5}\<close>: the animacy RDM is 0.5 at index 8 and
  1 elsewhere, the tool RDM is 0.5 at indices 4, 6 and 26 and 1 elsewhere. Index 8 is the
  pair \<open>(1, 3)\<close> in the order of the pairs, and in the sorted list of the 8 categories
  position 1 is the cat and position 3 the face.
\<close>

theorem model_rdms:
  assumes "length glm_vt = 8" and "rdm_vt = pdist metric glm_vt"
    and "set stimuli = set haxby_labels"
  shows "\<exists>a t. rdm_animacy rdm_vt = Inr a \<and> rdm_tools rdm_vt = Inr t
      \<and> length a = length rdm_vt \<and> length t = length rdm_vt \<and> length rdm_vt = 28
      \<and> set a \<subseteq> {1, 1/2} \<and> set t \<subseteq> {1, 1/2}
      \<and> (\<forall>k < 28. a ! k = (if k = 8 then 1/2 else 1))
      \<and> (\<forall>k < 28. t ! k = (if k = 4 \<or> k = 6 \<or> k = 26 then 1/2 else 1))
      \<and> pairs 8 ! 8 = (1, 3)
      \<and> categories stimuli ! 1 = ''cat'' \<and> categories stimuli ! 3 = ''face''
      \<and> length (categories stimuli) = 8"
proof -
  let ?a = "(replicate 28 (1::real))[8 := 1/2]"
  let ?t = "(replicate 28 (1::real))[4 := 1/2, 6 := 1/2, 26 := 1/2]"
  have len: "length rdm_vt = 28" using assms(1,2) by (simp add: length_pdist)
  have a: "rdm_animacy rdm_vt = Inr ?a" using len by (rule rdm_animacy_28)
  have t: "rdm_tools rdm_vt = Inr ?t" using len by (rule rdm_tools_28)
  have sa: "set ?a \<subseteq> {1, 1/2}" by (rule order_trans[OF set_update_subset_insert]) simp
  have st: "set ?t \<subseteq> {1, 1/2}"
    by (intro order_trans[OF set_update_subset_insert] insert_subsetI) simp_all
  have ea: "\<forall>k < 28. ?a ! k = (if k = 8 then 1/2 else 1)"
    using animacy_entries by blast
  have et: "\<forall>k < 28. ?t ! k = (if k = 4 \<or> k = 6 \<or> k = 26 then 1/2 else 1)"
    using tools_entries by blast
  have c: "categories stimuli ! 1 = ''cat'' \<and> categories stimuli ! 3 = ''face''
      \<and> length (categories stimuli) = 8"
    by (simp add: categories_set[OF assms(3)])
  have p: "pairs 8 ! 8 = (1, 3)" using pairs_8 by blast
  have "rdm_animacy rdm_vt = Inr ?a \<and> rdm_tools rdm_vt = Inr ?t
      \<and> length ?a = length rdm_vt \<and> length ?t = length rdm_vt \<and> length rdm_vt = 28
      \<and> set ?a \<subseteq> {1, 1/2} \<and> set ?t \<subseteq> {1, 1/2}
      \<and> (\<forall>k < 28. ?a ! k = (if k = 8 then 1/2 else 1))
      \<and> (\<forall>k < 28. ?t ! k = (if k = 4 \<or> k = 6 \<or> k = 26 then 1/2 else 1))
      \<and> pairs 8 ! 8 = (1, 3)
      \<and> categories stimuli ! 1 = ''cat'' \<and> categories stimuli ! 3 = ''face''
      \<and> length (categories stimuli) = 8"
    using a t sa st ea et c p len by simp
  then show ?thesis by blast
qed

theorem model_rdms_witness:
  "length [[1], [2], [3], [4], [5], [6], [7], [8 :: real]] = 8
   \<and> set (haxby_labels @ [''rest'', ''cat'']) = set haxby_labels
   \<and> (\<exists>a t. rdm_animacy (pdist euclidean [[1], [2], [3], [4], [5], [6], [7], [8]]) = Inr a
         \<and> rdm_tools (pdist euclidean [[1], [2], [3], [4], [5], [6], [7], [8]]) = Inr t
         \<and> length a = 28 \<and> length t = 28 \<and> a ! 8 = 1/2 \<and> a ! 9 = 1
         \<and> t ! 4 = 1/2 \<and> t ! 6 = 1/2 \<and> t ! 26 = 1/2 \<and> t ! 8 = 1)
   \<and> categories (haxby_labels @ [''rest'', ''cat'']) ! 1 = ''cat''"
proof -
  let ?X = "[[1], [2], [3], [4], [5], [6], [7], [8 :: real]]"
  let ?S = "haxby_labels @ [''rest'', ''cat'']"
  have 1: "length ?X = 8" by simp
  have 2: "set ?S = set haxby_labels" by (auto simp: haxby_labels_def)
  from model_rdms[OF 1 refl 2, of euclidean]
  obtain a t where h: "rdm_animacy (pdist euclidean ?X) = Inr a"
    "rdm_tools (pdist euclidean ?X) = Inr t"
    "length a = length (pdist euclidean ?X)" "length t = length (pdist euclidean ?X)"
    "length (pdist euclidean ?X) = 28"
    "\<forall>k < 28. a ! k = (if k = 8 then 1/2 else 1)"
    "\<forall>k < 28. t ! k = (if k = 4 \<or> k = 6 \<or> k = 26 then 1/2 else 1)"
    "categories ?S ! 1 = ''cat''"
    by blast
  have "a ! 8 = 1/2" "a ! 9 = 1" "t ! 4 = 1/2" "t ! 6 = 1/2" "t ! 26 = 1/2" "t ! 8 = 1"
    using h(6,7) by simp_all
  then show ?thesis using 1 2 h(1-5,8) by auto
qed

subsection \<open>Rank percentiles\<close>

lemma less_eq_count_le:
  "length (filter (\<lambda>y. y < x) a) + length (filter (\<lambda>y. y = x) a) \<le> length (a :: 'a::linorder list)"
  by (induction a) auto

lemma eq_count_pos: "x \<in> set a \<Longrightarrow> 0 < length (filter (\<lambda>y. y = x) a)"
  by (induction a) auto

lemma rankdata_nth:
  "i < length a \<Longrightarrow> rankdata a ! i =
     real (length (filter (\<lambda>y. y < a ! i) a)) + (real (length (filter (\<lambda>y. y = a ! i) a)) + 1) / 2"
  by (simp add: rankdata_def)

lemma length_rankdata: "length (rankdata a) = length a"
  by (simp add: rankdata_def)

lemma avg_rank_lower: "1 \<le> (e::real) \<Longrightarrow> 0 \<le> l \<Longrightarrow> 1 \<le> l + (e + 1) / 2"
  by (simp add: field_simps)

lemma avg_rank_upper: "1 \<le> (e::real) \<Longrightarrow> l + e \<le> n \<Longrightarrow> l + (e + 1) / 2 \<le> n"
  by (simp add: field_simps)

lemma rank_bounds:
  fixes a :: "'a::linorder list"
  assumes "x \<in> set a"
  shows "1 \<le> real (length (filter (\<lambda>y. y < x) a)) + (real (length (filter (\<lambda>y. y = x) a)) + 1) / 2"
    and "real (length (filter (\<lambda>y. y < x) a)) + (real (length (filter (\<lambda>y. y = x) a)) + 1) / 2 \<le> real (length a)"
proof -
  let ?L = "length (filter (\<lambda>y. y < x) a)" and ?E = "length (filter (\<lambda>y. y = x) a)"
  have E: "1 \<le> ?E" using eq_count_pos[OF assms] by (simp add: Suc_le_eq)
  have LE: "?L + ?E \<le> length a" by (rule less_eq_count_le)
  from E have E': "1 \<le> real ?E" by (metis of_nat_1 of_nat_le_iff)
  have L0: "0 \<le> real ?L" by simp
  show "1 \<le> real ?L + (real ?E + 1) / 2" using E' L0 by (rule avg_rank_lower)
  have "real ?L + real ?E \<le> real (length a)" using LE by (metis of_nat_add of_nat_le_iff)
  with E' show "real ?L + (real ?E + 1) / 2 \<le> real (length a)" by (rule avg_rank_upper)
qed

lemma rankdata_bounds: "r \<in> set (rankdata a) \<Longrightarrow> 1 \<le> r \<and> r \<le> real (length a)"
  using rank_bounds by (fastforce simp: rankdata_def)

lemma rank_percentile_bounds:
  assumes "p \<in> set (rank_percentile a)"
  shows "0 < p \<and> p \<le> 100"
proof -
  from assms obtain r where r: "r \<in> set (rankdata a)" and p: "p = r / real (length a) * 100"
    by (auto simp: rank_percentile_def)
  from rankdata_bounds[OF r] have b: "1 \<le> r" "r \<le> real (length a)" by simp_all
  then have n: "0 < real (length a)" by linarith
  show ?thesis unfolding p using b n by (simp add: field_simps)
qed

lemma rankdata_unique_max:
  assumes i: "i < length a" and mx: "\<forall>j < length a. j \<noteq> i \<longrightarrow> a ! j < a ! i"
  shows "rankdata a ! i = real (length a)"
proof -
  let ?x = "a ! i"
  have split: "a = take i a @ ?x # drop (Suc i) a" using i by (rule id_take_nth_drop)
  have tk: "\<forall>y \<in> set (take i a). y < ?x"
  proof
    fix y assume "y \<in> set (take i a)"
    then obtain k where "k < length (take i a)" "take i a ! k = y" by (auto simp: in_set_conv_nth)
    then have "k < i" "a ! k = y" using i by simp_all
    with mx i show "y < ?x" by auto
  qed
  have dr: "\<forall>y \<in> set (drop (Suc i) a). y < ?x"
  proof
    fix y assume "y \<in> set (drop (Suc i) a)"
    then obtain k where k: "k < length (drop (Suc i) a)" "drop (Suc i) a ! k = y"
      by (auto simp: in_set_conv_nth)
    then have "Suc i + k < length a" "a ! (Suc i + k) = y" using i by simp_all
    with mx show "y < ?x" by auto
  qed
  have "filter (\<lambda>y. y < ?x) (take i a @ ?x # drop (Suc i) a) = take i a @ drop (Suc i) a"
    using tk dr by (simp add: filter_id_conv)
  then have L: "filter (\<lambda>y. y < ?x) a = take i a @ drop (Suc i) a"
    using arg_cong[OF split, of "filter (\<lambda>y. y < ?x)"] by simp
  have e1: "filter (\<lambda>y. y = ?x) (take i a) = []"
    using tk by (auto simp: filter_empty_conv)
  have e2: "filter (\<lambda>y. y = ?x) (drop (Suc i) a) = []"
    using dr by (auto simp: filter_empty_conv)
  have "filter (\<lambda>y. y = ?x) (take i a @ ?x # drop (Suc i) a) = [?x]"
    by (simp add: e1 e2)
  then have E: "filter (\<lambda>y. y = ?x) a = [?x]"
    using arg_cong[OF split, of "filter (\<lambda>y. y = ?x)"] by simp
  have "length (take i a @ drop (Suc i) a) = length a - 1" using i by simp
  then have "real (length (filter (\<lambda>y. y < ?x) a)) = real (length a) - 1"
    using i by (simp add: L of_nat_diff)
  then show ?thesis using i by (simp add: rankdata_nth E)
qed

lemma rankdata_strict_mono:
  assumes "strict_mono f"
  shows "rankdata (map f a) = rankdata a"
proof -
  have 1: "length (filter (\<lambda>y. y < f x) (map f a)) = length (filter (\<lambda>y. y < x) a)" for x
    by (simp add: filter_map comp_def strict_mono_less[OF assms])
  have 2: "length (filter (\<lambda>y. y = f x) (map f a)) = length (filter (\<lambda>y. y = x) a)" for x
    by (simp add: filter_map comp_def strict_mono_eq[OF assms])
  show ?thesis unfolding rankdata_def map_map comp_def 1 2 ..
qed

text \<open>
  Claim C10. For a non-empty array \<open>a\<close> of length \<open>n\<close>, \<open>rank_percentile a\<close> has
  length \<open>n\<close>, its entries are \<open>rankdata(a) / n * 100\<close>, every entry lies in
  \<open>(0, 100]\<close>, an entry strictly greater than all others maps to exactly 100, and
  the result does not change when a strictly increasing function is applied to every
  entry of \<open>a\<close>.
\<close>

theorem rank_percentile_props:
  assumes "a \<noteq> []"
  shows "length (rank_percentile a) = length a
    \<and> rank_percentile a = map (\<lambda>r. r / real (length a) * 100) (rankdata a)
    \<and> (\<forall>p \<in> set (rank_percentile a). 0 < p \<and> p \<le> 100)
    \<and> (\<forall>i < length a. (\<forall>j < length a. j \<noteq> i \<longrightarrow> a ! j < a ! i) \<longrightarrow> rank_percentile a ! i = 100)
    \<and> (strict_mono f \<longrightarrow> rank_percentile (map f a) = rank_percentile a)"
proof -
  have n: "0 < real (length a)" using assms by simp
  have 1: "length (rank_percentile a) = length a"
    by (simp add: rank_percentile_def length_rankdata)
  have 2: "rank_percentile a = map (\<lambda>r. r / real (length a) * 100) (rankdata a)"
    by (simp add: rank_percentile_def)
  have 3: "\<forall>p \<in> set (rank_percentile a). 0 < p \<and> p \<le> 100"
    using rank_percentile_bounds by blast
  have 4: "rank_percentile a ! i = 100"
    if "i < length a" "\<forall>j < length a. j \<noteq> i \<longrightarrow> a ! j < a ! i" for i
    using that n by (simp add: rank_percentile_def length_rankdata rankdata_unique_max)
  have 5: "strict_mono f \<longrightarrow> rank_percentile (map f a) = rank_percentile a"
    by (simp add: rank_percentile_def rankdata_strict_mono)
  show ?thesis using 1 2 3 4 5 by blast
qed

theorem rank_percentile_props_witness:
  "[3, 1, 2, 2 :: real] \<noteq> []
   \<and> length (rank_percentile [3, 1, 2, 2 :: real]) = 4
   \<and> 0 < rank_percentile [3, 1, 2, 2 :: real] ! 1 \<and> rank_percentile [3, 1, 2, 2 :: real] ! 1 \<le> 100
   \<and> rank_percentile [3, 1, 2, 2 :: real] ! 0 = 100
   \<and> strict_mono (\<lambda>x :: real. 2 * x + 1)
   \<and> rank_percentile (map (\<lambda>x. 2 * x + 1) [3, 1, 2, 2 :: real]) = rank_percentile [3, 1, 2, 2 :: real]"
proof -
  let ?a = "[3, 1, 2, 2 :: real]"
  have ne: "?a \<noteq> []" by simp
  note th = rank_percentile_props[OF ne, of "\<lambda>x. 2 * x + 1"]
  have len: "length ?a = 4" by simp
  have mx: "\<forall>j < length ?a. j \<noteq> 0 \<longrightarrow> ?a ! j < ?a ! 0"
    by (simp add: nth_Cons' less_Suc_eq numeral_eq_Suc)
  have sm: "strict_mono (\<lambda>x :: real. 2 * x + 1)" by (simp add: strict_mono_def)
  have 1: "length (rank_percentile ?a) = 4" using th[THEN conjunct1] by simp
  have "rank_percentile ?a ! 1 \<in> set (rank_percentile ?a)"
    by (rule nth_mem) (simp add: 1)
  with th[THEN conjunct2, THEN conjunct2, THEN conjunct1]
  have 3: "0 < rank_percentile ?a ! 1 \<and> rank_percentile ?a ! 1 \<le> 100" by (rule bspec)
  have "\<forall>i < length ?a. (\<forall>j < length ?a. j \<noteq> i \<longrightarrow> ?a ! j < ?a ! i) \<longrightarrow> rank_percentile ?a ! i = 100"
    using th[THEN conjunct2, THEN conjunct2, THEN conjunct2, THEN conjunct1] .
  then have 4: "rank_percentile ?a ! 0 = 100" using mx by (simp only: len)
  have 5: "rank_percentile (map (\<lambda>x. 2 * x + 1) ?a) = rank_percentile ?a"
    using th[THEN conjunct2, THEN conjunct2, THEN conjunct2, THEN conjunct2] sm by (rule mp)
  show ?thesis using ne 1 3 4 sm 5 by (intro conjI) simp_all
qed

subsection \<open>Square form of an RDM\<close>

lemma ceil_sqrt_eq:
  assumes low: "\<forall>d < n. d * d < k" and up: "k \<le> n * n" and le: "n \<le> k"
  shows "ceil_sqrt k = n"
proof -
  from le obtain m where m: "Suc k = n + Suc m"
    by (metis add_Suc_right le_Suc_ex)
  have "[0..<n + Suc m] = [0..<n] @ [n..<n + Suc m]"
    by (rule upt_add_eq_append) simp
  also have "[n..<n + Suc m] = n # [Suc n..<n + Suc m]"
    by (rule upt_conv_Cons) simp
  finally have "[0..<Suc k] = [0..<n] @ n # [Suc n..<Suc k]"
    by (simp only: m)
  moreover have "takeWhile (\<lambda>d. d * d < k) ([0..<n] @ n # [Suc n..<Suc k]) = [0..<n]"
    using low up by (simp add: takeWhile_tail)
  ultimately show ?thesis by (simp add: ceil_sqrt_def)
qed

lemma twice_choose2: "2 * (n * (n - 1) div 2) = n * (n - Suc 0)"
proof -
  have "even (n * (n - 1))" by (cases n) simp_all
  then show ?thesis by simp
qed

lemma ceil_sqrt_choose2:
  assumes "2 \<le> n"
  shows "ceil_sqrt (n * (n - 1)) = n"
proof (rule ceil_sqrt_eq)
  show "\<forall>d < n. d * d < n * (n - 1)"
  proof (intro allI impI)
    fix d assume "d < n"
    then have "d \<le> n - 1" by linarith
    then have "d * d \<le> (n - 1) * (n - 1)" by (simp add: mult_le_mono)
    also have "\<dots> < n * (n - 1)" using assms by simp
    finally show "d * d < n * (n - 1)" .
  qed
  show "n * (n - 1) \<le> n * n" by simp
  show "n \<le> n * (n - 1)" using assms by simp
qed

lemma length_put: "length (put M i j x) = length M"
  by (simp add: put_def)

lemma length_put_row: "length (put M i j x ! r) = length (M ! r)"
  by (cases "i < length M"; cases "r = i") (simp_all add: put_def list_update_beyond)

lemma put_nth:
  "a < length M \<Longrightarrow> b < length (M ! a) \<Longrightarrow>
     put M i j x ! a ! b = (if a = i \<and> b = j then x else M ! a ! b)"
  by (cases "a = i") (simp_all add: put_def nth_list_update)

lemma length_fill: "length (fill kvs M) = length M"
  by (induction kvs M rule: fill.induct) (simp_all add: length_put)

lemma length_fill_row: "length (fill kvs M ! r) = length (M ! r)"
  by (induction kvs M rule: fill.induct) (simp_all add: length_put_row)

lemma fill_lookup:
  assumes "length M = d" and "\<forall>r < d. length (M ! r) = d"
    and "\<forall>k \<in> set (map fst kvs). fst k < snd k \<and> snd k < d"
    and "distinct (map fst kvs)" and "a < d" and "b < d"
  shows "fill kvs M ! a ! b =
    (case map_of kvs (a, b) of Some x \<Rightarrow> x
     | None \<Rightarrow> (case map_of kvs (b, a) of Some x \<Rightarrow> x | None \<Rightarrow> M ! a ! b))"
  using assms
proof (induction kvs M rule: fill.induct)
  case (1 M)
  then show ?case by simp
next
  case (2 i j x rest M)
  let ?M = "put (put M i j x) j i x"
  have ij: "i < j" "j < d" using "2.prems"(3) by simp_all
  have d1: "length ?M = d" using "2.prems"(1) by (simp add: length_put)
  have d2: "\<forall>r < d. length (?M ! r) = d" using "2.prems"(2) by (simp add: length_put_row)
  have k: "\<forall>k \<in> set (map fst rest). fst k < snd k \<and> snd k < d" using "2.prems"(3) by simp
  have dis: "distinct (map fst rest)" using "2.prems"(4) by simp
  have n1: "map_of rest (i, j) = None"
    using "2.prems"(4) by (simp add: map_of_eq_None_iff)
  have n2: "map_of rest (j, i) = None"
  proof -
    have "(j, i) \<notin> set (map fst rest)" using k ij by force
    then show ?thesis by (simp add: map_of_eq_None_iff)
  qed
  have cell: "?M ! a ! b = (if (a = i \<and> b = j) \<or> (a = j \<and> b = i) then x else M ! a ! b)"
    using "2.prems"(1,2,5,6) ij by (simp add: put_nth length_put length_put_row) 
  have IH: "fill rest ?M ! a ! b =
    (case map_of rest (a, b) of Some x \<Rightarrow> x
     | None \<Rightarrow> (case map_of rest (b, a) of Some x \<Rightarrow> x | None \<Rightarrow> ?M ! a ! b))"
    using "2.IH"[OF d1 d2 k dis "2.prems"(5,6)] .
  have lhs: "fill (((i, j), x) # rest) M ! a ! b = fill rest ?M ! a ! b" by simp
  consider (ij) "a = i" "b = j" | (ji) "a = j" "b = i"
    | (other) "(a, b) \<noteq> (i, j)" "(b, a) \<noteq> (i, j)" by auto
  then show ?case
  proof cases
    case ij
    then have "?M ! a ! b = x" using cell by simp
    then show ?thesis unfolding lhs IH using ij n1 n2 by simp
  next
    case ji
    then have "?M ! a ! b = x" using cell by simp
    moreover have "(j, i) \<noteq> (i, j)" using ij by simp
    ultimately show ?thesis unfolding lhs IH using ji n1 n2 by simp
  next
    case other
    then have ceq: "?M ! a ! b = M ! a ! b" using cell by auto
    have m1: "map_of (((i, j), x) # rest) (a, b) = map_of rest (a, b)"
      using other(1) by auto
    have m2: "map_of (((i, j), x) # rest) (b, a) = map_of rest (b, a)"
      using other(2) by auto
    show ?thesis by (simp only: lhs IH m1 m2 ceq)
  qed
qed

lemma is_square_iff: "is_square M \<longleftrightarrow> (\<forall>r < length M. length (M ! r) = length M)"
  by (simp add: is_square_def list_all_length)

lemma is_symmetric_iff:
  "is_symmetric M \<longleftrightarrow> (\<forall>i < length M. \<forall>j < length M. M ! i ! j = M ! j ! i)"
  by (auto simp: is_symmetric_def list_all_iff)

lemma zero_diagonal_iff: "zero_diagonal M \<longleftrightarrow> (\<forall>i < length M. M ! i ! i = 0)"
  by (auto simp: zero_diagonal_def list_all_iff)

lemma distinct_combinations2: "distinct xs \<Longrightarrow> distinct (combinations2 xs)"
proof (induction xs)
  case Nil
  then show ?case by simp
next
  case (Cons x xs)
  have "distinct (map (Pair x) xs)" using Cons.prems by (simp add: distinct_map inj_on_def)
  moreover have "set (map (Pair x) xs) \<inter> set (combinations2 xs) = {}"
    using Cons.prems by (auto dest: set_combinations2_subset)
  ultimately show ?case using Cons by simp
qed

lemma distinct_pairs: "distinct (pairs d)"
  by (simp add: pairs_combinations2 distinct_combinations2)

lemma length_to_squareform: "length (to_squareform_from_vector d v) = d"
  by (simp add: to_squareform_from_vector_def length_fill)

lemma length_to_squareform_row:
  "r < d \<Longrightarrow> length (to_squareform_from_vector d v ! r) = d"
  by (simp add: to_squareform_from_vector_def length_fill_row)

lemma to_squareform_lookup:
  assumes len: "length v = length (pairs d)" and a: "a < d" and b: "b < d"
  shows "to_squareform_from_vector d v ! a ! b =
    (case map_of (zip (pairs d) v) (a, b) of Some x \<Rightarrow> x
     | None \<Rightarrow> (case map_of (zip (pairs d) v) (b, a) of Some x \<Rightarrow> x | None \<Rightarrow> 0))"
proof -
  let ?Z = "replicate d (replicate d (0::'a))"
  have fst: "map fst (zip (pairs d) v) = pairs d" using len by (simp add: map_fst_zip)
  have 1: "length ?Z = d" by simp
  have 2: "\<forall>r < d. length (?Z ! r) = d" by simp
  have 3: "\<forall>k \<in> set (map fst (zip (pairs d) v)). fst k < snd k \<and> snd k < d"
    unfolding fst by (auto simp: set_pairs)
  have 4: "distinct (map fst (zip (pairs d) v))" unfolding fst by (rule distinct_pairs)
  have "?Z ! a ! b = 0" using a b by simp
  with fill_lookup[OF 1 2 3 4 a b] show ?thesis
    unfolding to_squareform_from_vector_def by (simp split: option.splits)
qed

lemma to_squareform_pair:
  assumes len: "length v = length (pairs d)" and k: "k < length v" and p: "pairs d ! k = (i, j)"
  shows "to_squareform_from_vector d v ! i ! j = v ! k"
    and "to_squareform_from_vector d v ! j ! i = v ! k"
proof -
  have mem: "(i, j) \<in> set (pairs d)" using k len p by (metis nth_mem)
  then have ij: "i < j" "j < d" by (simp_all add: set_pairs)
  have m: "map_of (zip (pairs d) v) (i, j) = Some (v ! k)"
    using map_of_zip_nth[OF len[symmetric] distinct_pairs k] p by simp
  have "(j, i) \<notin> set (pairs d)" using ij by (simp add: set_pairs)
  then have n: "map_of (zip (pairs d) v) (j, i) = None"
    using len by (simp add: map_of_zip_is_None)
  show "to_squareform_from_vector d v ! i ! j = v ! k"
    using ij by (simp add: to_squareform_lookup[OF len] m)
  show "to_squareform_from_vector d v ! j ! i = v ! k"
    using ij by (simp add: to_squareform_lookup[OF len] m n)
qed

lemma to_squareform_condensed:
  assumes len: "length v = length (pairs d)" and ij: "i < j" "j < d"
  shows "to_squareform_from_vector d v ! i ! j = v ! condensed_index d i j"
    and "to_squareform_from_vector d v ! j ! i = v ! condensed_index d i j"
  using to_squareform_pair[OF len _ pairs_condensed(2)[OF ij]] pairs_condensed(1)[OF ij] len
  by simp_all

lemma to_squareform_diag:
  assumes len: "length v = length (pairs d)" and a: "a < d"
  shows "to_squareform_from_vector d v ! a ! a = 0"
proof -
  have "(a, a) \<notin> set (pairs d)" by (simp add: set_pairs)
  then have "map_of (zip (pairs d) v) (a, a) = None"
    using len by (simp add: map_of_zip_is_None)
  then show ?thesis by (simp add: to_squareform_lookup[OF len a a])
qed

lemma to_squareform_sym:
  assumes len: "length v = length (pairs d)" and a: "a < d" and b: "b < d"
  shows "to_squareform_from_vector d v ! a ! b = to_squareform_from_vector d v ! b ! a"
proof (cases a b rule: linorder_cases)
  case less
  then show ?thesis using to_squareform_condensed[OF len less b] by simp
next
  case equal
  then show ?thesis by simp
next
  case greater
  then show ?thesis using to_squareform_condensed[OF len greater a] by simp
qed

lemma to_squareform_valid:
  assumes len: "length v = length (pairs d)"
  shows "is_square (to_squareform_from_vector d v)"
    and "is_symmetric (to_squareform_from_vector d v)"
    and "zero_diagonal (to_squareform_from_vector d v)"
  using to_squareform_sym[OF len] to_squareform_diag[OF len]
  by (simp_all add: is_square_iff is_symmetric_iff zero_diagonal_iff length_to_squareform
      length_to_squareform_row)

lemma to_vector_to_squareform:
  assumes len: "length v = length (pairs d)"
  shows "to_vector_from_squareform (to_squareform_from_vector d v) = v"
proof (rule nth_equalityI)
  show "length (to_vector_from_squareform (to_squareform_from_vector d v)) = length v"
    by (simp add: to_vector_from_squareform_def length_to_squareform len)
next
  fix k assume "k < length (to_vector_from_squareform (to_squareform_from_vector d v))"
  then have k: "k < length v"
    by (simp add: to_vector_from_squareform_def length_to_squareform len)
  obtain i j where p: "pairs d ! k = (i, j)" by (cases "pairs d ! k")
  show "to_vector_from_squareform (to_squareform_from_vector d v) ! k = v ! k"
    using k len p to_squareform_pair(1)[OF len k p]
    by (simp add: to_vector_from_squareform_def length_to_squareform)
qed

lemma reordered_Inr:
  assumes "reordered M idx = Inr R"
  shows "R = map (\<lambda>a. map (\<lambda>b. M ! a ! b) idx) idx" and "\<forall>a \<in> set idx. a < length M"
  using assms
  by (auto simp: reordered_def take_rows_def take_cols_def list_all_iff split: if_splits)

lemma reordered_square:
  assumes sq: "is_square M" and idx: "\<forall>a \<in> set idx. a < length M"
  shows "reordered M idx = Inr (map (\<lambda>a. map (\<lambda>b. M ! a ! b) idx) idx)"
proof -
  have "\<forall>a \<in> set idx. \<forall>b \<in> set idx. b < length (M ! a)"
    using sq idx by (simp add: is_square_iff)
  then show ?thesis using idx
    by (simp add: reordered_def take_rows_def take_cols_def list_all_iff)
qed

lemma reordered_valid:
  assumes sq: "is_square M" and sym: "is_symmetric M" and zd: "zero_diagonal M"
    and r: "reordered M idx = Inr R"
  shows "is_square R \<and> is_symmetric R \<and> zero_diagonal R"
proof -
  note R = reordered_Inr(1)[OF r] and idx = reordered_Inr(2)[OF r]
  have in_range: "idx ! p < length M" if "p < length idx" for p
    using idx that by simp
  have cell: "R ! p ! q = M ! (idx ! p) ! (idx ! q)" if "p < length idx" "q < length idx" for p q
    using that by (simp add: R)
  have 1: "is_square R" by (simp add: is_square_iff R)
  have 2: "is_symmetric R"
    unfolding is_symmetric_iff
  proof (intro allI impI)
    fix p q assume "p < length R" "q < length R"
    then have pq: "p < length idx" "q < length idx" by (simp_all add: R)
    show "R ! p ! q = R ! q ! p"
      using sym in_range[OF pq(1)] in_range[OF pq(2)]
      by (simp add: cell pq is_symmetric_iff)
  qed
  have 3: "zero_diagonal R"
    unfolding zero_diagonal_iff
  proof (intro allI impI)
    fix p assume "p < length R"
    then have p: "p < length idx" by (simp add: R)
    show "R ! p ! p = 0" using zd in_range[OF p] by (simp add: cell p zero_diagonal_iff)
  qed
  show ?thesis using 1 2 3 by simp
qed

lemma squareform_empty: "squareform (Vec []) = Inr (Mat [[0]])"
  by simp

lemma squareform_unit: "squareform (Mat [[0]]) = Inr (Vec [])"
  by (simp add: is_square_def is_symmetric_def zero_diagonal_def)

lemma length_choose2_0: "(n::nat) * (n - 1) div 2 = 0 \<longleftrightarrow> n < 2"
proof (cases "n < 2")
  case True
  then have "n = 0 \<or> n = 1" by arith
  then show ?thesis by auto
next
  case False
  then have "2 * 1 \<le> n * (n - 1)" by (intro mult_le_mono) simp_all
  then have "1 \<le> n * (n - 1) div 2" by simp
  then show ?thesis using False by simp
qed

lemma squareform_vec:
  assumes len: "length v = n * (n - 1) div 2" and n: "2 \<le> n"
  shows "squareform (Vec v) = Inr (Mat (to_squareform_from_vector n v))"
proof -
  have ne: "length v \<noteq> 0" using len n length_choose2_0[of n] by simp
  have two: "length v * 2 = n * (n - 1)" using twice_choose2[of n] len by simp
  have "ceil_sqrt (length v * 2) = n" unfolding two using n by (rule ceil_sqrt_choose2)
  then show ?thesis using ne two by (simp add: Let_def)
qed

lemma squareform_mat:
  assumes len: "length v = n * (n - 1) div 2" and n: "2 \<le> n"
  shows "squareform (Mat (to_squareform_from_vector n v)) = Inr (Vec v)"
proof -
  have lp: "length v = length (pairs n)" by (simp add: len length_pairs)
  show ?thesis using n to_squareform_valid[OF lp] to_vector_to_squareform[OF lp]
    by (simp add: length_to_squareform)
qed

text \<open>
  Claim C4. For every vector \<open>v\<close> of length \<open>N (N - 1) / 2\<close>, \<open>squareform\<close> turns
  \<open>v\<close> into a square matrix (\<open>N \<times> N\<close> for \<open>N \<ge> 1\<close>), and \<open>squareform\<close> of that
  matrix is \<open>v\<close> again.
\<close>

theorem squareform_roundtrip:
  assumes "length v = n * (n - 1) div 2"
  shows "\<exists>M. squareform (Vec v) = Inr (Mat M) \<and> is_square M \<and> (1 \<le> n \<longrightarrow> length M = n)
    \<and> squareform (Mat M) = Inr (Vec v)"
proof (cases "2 \<le> n")
  case True
  have lp: "length v = length (pairs n)" by (simp add: assms length_pairs)
  show ?thesis
    using squareform_vec[OF assms True] squareform_mat[OF assms True]
      to_squareform_valid(1)[OF lp] length_to_squareform[of n v]
    by blast
next
  case False
  then have v: "v = []" using assms length_choose2_0[of n] by simp
  have n: "1 \<le> n \<longrightarrow> length [[0::'a]] = n" using False by auto
  have "is_square [[0::'a]]" by (simp add: is_square_def)
  then show ?thesis using squareform_empty squareform_unit n unfolding v by blast
qed

theorem squareform_roundtrip_witness:
  "length [1, 2, 3 :: int] = 3 * (3 - 1) div 2
   \<and> squareform (Vec [1, 2, 3 :: int]) = Inr (Mat [[0, 1, 2], [1, 0, 3], [2, 3, 0]])
   \<and> squareform (Mat [[0, 1, 2], [1, 0, 3], [2, 3, 0 :: int]]) = Inr (Vec [1, 2, 3])"
proof -
  have len: "length [1, 2, 3 :: int] = 3 * (3 - 1) div 2" by simp
  have sq: "squareform (Vec [1, 2, 3 :: int]) = Inr (Mat [[0, 1, 2], [1, 0, 3], [2, 3, 0]])"
    by code_simp
  from squareform_roundtrip[OF len] obtain M where
    m1: "squareform (Vec [1, 2, 3 :: int]) = Inr (Mat M)" and
    m2: "squareform (Mat M) = Inr (Vec [1, 2, 3])"
    by (elim exE conjE) (rule that, assumption+)
  have M: "M = [[0, 1, 2], [1, 0, 3], [2, 3, 0]]" using m1 unfolding sq by simp
  show ?thesis using len sq m2[unfolded M] by (intro conjI)
qed

lemma set_reorder: "\<forall>a \<in> set reorder. a < 8"
  by (simp add: reorder_def)

text \<open>
  Claim C8. For every vectorized dissimilarity array of length \<open>N (N - 1) / 2\<close>, the
  matrix that \<open>squareform\<close> builds is square, symmetric and has a zero diagonal; for
  \<open>i < j < N\<close> its cells \<open>(i, j)\<close> and \<open>(j, i)\<close> hold the entry of the pair
  \<open>(i, j)\<close>, which for the output of \<open>pdist\<close> is the distance between patterns
  \<open>i\<close> and \<open>j\<close>. Selecting rows and columns by one index list, as the notebook does
  before plotting, keeps the matrix square, symmetric and zero on the diagonal, and for
  \<open>N = 8\<close> the notebook's \<open>reorder\<close> list selects an \<open>8 \<times> 8\<close> matrix.
\<close>

theorem squareform_rdm:
  assumes "length v = n * (n - 1) div 2"
  shows "\<exists>M. squareform (Vec v) = Inr (Mat M)
    \<and> is_square M \<and> (1 \<le> n \<longrightarrow> length M = n)
    \<and> is_symmetric M \<and> (\<forall>i < length M. \<forall>j < length M. M ! i ! j = M ! j ! i)
    \<and> zero_diagonal M \<and> (\<forall>i < length M. M ! i ! i = 0)
    \<and> (\<forall>i j. i < j \<and> j < n \<longrightarrow>
          M ! i ! j = v ! condensed_index n i j \<and> M ! j ! i = v ! condensed_index n i j)
    \<and> (\<forall>metric X. v = pdist metric X \<and> length X = n \<longrightarrow>
          (\<forall>i j. i < j \<and> j < n \<longrightarrow>
             M ! i ! j = metric (X ! i) (X ! j) \<and> M ! j ! i = metric (X ! i) (X ! j)))
    \<and> (\<forall>idx R. reordered M idx = Inr R \<longrightarrow> is_square R \<and> is_symmetric R \<and> zero_diagonal R)
    \<and> (n = 8 \<longrightarrow> (\<exists>R. reordered M reorder = Inr R \<and> length R = 8))"
proof (cases "2 \<le> n")
  case True
  let ?M = "to_squareform_from_vector n v"
  have lp: "length v = length (pairs n)" by (simp add: assms length_pairs)
  note valid = to_squareform_valid[OF lp]
  have 1: "squareform (Vec v) = Inr (Mat ?M)" using assms True by (rule squareform_vec)
  have 2: "length ?M = n" by (rule length_to_squareform)
  have 3: "\<forall>i < length ?M. \<forall>j < length ?M. ?M ! i ! j = ?M ! j ! i"
    using valid(2) by (simp add: is_symmetric_iff)
  have 4: "\<forall>i < length ?M. ?M ! i ! i = 0"
    using valid(3) by (simp add: zero_diagonal_iff)
  have 5: "\<forall>i j. i < j \<and> j < n \<longrightarrow>
      ?M ! i ! j = v ! condensed_index n i j \<and> ?M ! j ! i = v ! condensed_index n i j"
    using to_squareform_condensed[OF lp] by blast
  have 6: "\<forall>metric X. v = pdist metric X \<and> length X = n \<longrightarrow>
      (\<forall>i j. i < j \<and> j < n \<longrightarrow>
         ?M ! i ! j = metric (X ! i) (X ! j) \<and> ?M ! j ! i = metric (X ! i) (X ! j))"
    using 5 pdist_nth by metis
  have 7: "\<forall>idx R. reordered ?M idx = Inr R \<longrightarrow> is_square R \<and> is_symmetric R \<and> zero_diagonal R"
    using reordered_valid[OF valid] by blast
  have 8: "n = 8 \<longrightarrow> (\<exists>R. reordered ?M reorder = Inr R \<and> length R = 8)"
  proof
    assume n8: "n = 8"
    have "\<forall>a \<in> set reorder. a < length ?M" using set_reorder by (simp add: length_to_squareform n8)
    from reordered_square[OF valid(1) this]
    show "\<exists>R. reordered ?M reorder = Inr R \<and> length R = 8" by (simp add: reorder_def)
  qed
  show ?thesis
    using 1 2 3 4 5 6 7 8 valid by blast
next
  case False
  let ?M = "[[0]] :: 'a list list"
  have v: "v = []" using False assms length_choose2_0[of n] by simp
  have 1: "squareform (Vec v) = Inr (Mat ?M)" using v by simp
  have sq: "is_square ?M" by (simp add: is_square_def)
  have sym: "is_symmetric ?M" by (simp add: is_symmetric_def)
  have zd: "zero_diagonal ?M" by (simp add: zero_diagonal_def)
  have 7: "\<forall>idx R. reordered ?M idx = Inr R \<longrightarrow> is_square R \<and> is_symmetric R \<and> zero_diagonal R"
    using reordered_valid[OF sq sym zd] by blast
  have 3: "\<forall>i < length ?M. \<forall>j < length ?M. ?M ! i ! j = ?M ! j ! i" by simp
  have 4: "\<forall>i < length ?M. ?M ! i ! i = 0" by simp
  have 5: "\<not> (i < j \<and> j < n)" for i j :: nat using False by simp
  have 8: "n \<noteq> 8" using False by simp
  have 2: "1 \<le> n \<longrightarrow> length ?M = n" using False by auto
  show ?thesis using 1 2 sq sym zd 3 4 5 7 8 by blast
qed

theorem squareform_rdm_witness:
  "length (pdist (\<lambda>u v. \<bar>u - v\<bar>) [1, 4, 9 :: int]) = 3 * (3 - 1) div 2
   \<and> squareform (Vec (pdist (\<lambda>u v. \<bar>u - v\<bar>) [1, 4, 9 :: int]))
       = Inr (Mat [[0, 3, 8], [3, 0, 5], [8, 5, 0]])
   \<and> is_symmetric [[0, 3, 8], [3, 0, 5], [8, 5, 0 :: int]]
   \<and> zero_diagonal [[0, 3, 8], [3, 0, 5], [8, 5, 0 :: int]]
   \<and> [[0, 3, 8], [3, 0, 5], [8, 5, 0 :: int]] ! 2 ! 0 = \<bar>[1, 4, 9] ! 0 - [1, 4, 9] ! 2\<bar>
   \<and> reordered [[0, 3, 8], [3, 0, 5], [8, 5, 0 :: int]] [2, 0, 1]
       = Inr [[0, 8, 5], [8, 0, 3], [5, 3, 0]]
   \<and> is_symmetric [[0, 8, 5], [8, 0, 3], [5, 3, 0 :: int]]
   \<and> zero_diagonal [[0, 8, 5], [8, 0, 3], [5, 3, 0 :: int]]"
proof -
  let ?m = "\<lambda>u v :: int. \<bar>u - v\<bar>"
  let ?X = "[1, 4, 9 :: int]"
  let ?M = "[[0, 3, 8], [3, 0, 5], [8, 5, 0 :: int]]"
  let ?R = "[[0, 8, 5], [8, 0, 3], [5, 3, 0 :: int]]"
  have pd: "pdist ?m ?X = [3, 8, 5]" by code_simp
  have len: "length (pdist ?m ?X) = 3 * (3 - 1) div 2" by (simp add: pd)
  have sq: "squareform (Vec (pdist ?m ?X)) = Inr (Mat ?M)" unfolding pd by code_simp
  have re: "reordered ?M [2, 0, 1] = Inr ?R" by code_simp
  from squareform_rdm[OF len] obtain M where
    m1: "squareform (Vec (pdist ?m ?X)) = Inr (Mat M)" and
    m2: "is_symmetric M" and m3: "zero_diagonal M" and
    m4: "\<forall>(metric :: int \<Rightarrow> int \<Rightarrow> int) X. pdist ?m ?X = pdist metric X \<and> length X = 3 \<longrightarrow>
          (\<forall>i j. i < j \<and> j < 3 \<longrightarrow>
             M ! i ! j = metric (X ! i) (X ! j) \<and> M ! j ! i = metric (X ! i) (X ! j))" and
    m5: "\<forall>idx R. reordered M idx = Inr R \<longrightarrow> is_square R \<and> is_symmetric R \<and> zero_diagonal R"
    by (elim exE conjE) (rule that, assumption+)
  have M: "M = ?M" using m1 sq by simp
  note h = m2[unfolded M] m3[unfolded M] m4[unfolded M] m5[unfolded M]
  have c: "?M ! 2 ! 0 = ?m (?X ! 0) (?X ! 2)"
    using h(3)[rule_format, of ?m ?X 0 2] by simp
  have r: "is_symmetric ?R \<and> zero_diagonal ?R" using h(4) re by blast
  show ?thesis using len sq h(1,2) c re r by (intro conjI) simp_all
qed

subsection \<open>Distances of identical patterns\<close>

lemma dot_self: "dot w w = sum_list (map (\<lambda>x. x * x) w)"
  by (simp add: dot_def zip_same_conv_map comp_def)

lemma dot_self_nonneg: "0 \<le> dot w w"
  unfolding dot_self by (rule sum_list_nonneg) auto

lemma dot_self_eq_0: "dot w w = 0 \<longleftrightarrow> (\<forall>x \<in> set w. x = 0)"
proof -
  have "sum_list (map (\<lambda>x. x * x) w) = 0 \<longleftrightarrow> (\<forall>y \<in> set (map (\<lambda>x. x * x) w). y = 0)"
    by (rule sum_list_nonneg_eq_0_iff) auto
  then show ?thesis by (simp add: dot_self)
qed

lemma pearsonr_self:
  assumes "dot (centered u) (centered u) \<noteq> 0"
  shows "pearsonr u u = Some 1"
proof -
  let ?s = "dot (centered u) (centered u)"
  have "0 \<le> ?s" by (rule dot_self_nonneg)
  then have "sqrt (?s * ?s) = ?s" by simp
  then show ?thesis using assms by (simp add: pearsonr_def Let_def)
qed

lemma variance_dot: "variance u \<noteq> 0 \<Longrightarrow> dot (centered u) (centered u) \<noteq> 0"
  by (auto simp: variance_def)

lemma correlation_self: "variance u \<noteq> 0 \<Longrightarrow> correlation u u = Some 0"
  by (simp add: correlation_def pearsonr_self variance_dot)

lemma euclidean_self: "euclidean u u = 0"
proof -
  have "map2 (-) u u = map (\<lambda>x. 0) u" by (simp add: zip_same_conv_map comp_def)
  then show ?thesis by (simp add: euclidean_def comp_def)
qed

text \<open>
  Claim C2. For two identical response patterns the Euclidean distance is 0, and the
  correlation distance (1 minus the Pearson correlation) is 0 when the pattern has
  nonzero variance; so are the entries that \<open>pdist\<close> computes for two identical rows.
\<close>

theorem identical_patterns:
  "euclidean u u = 0
   \<and> (variance u \<noteq> 0 \<longrightarrow> correlation u u = Some 0)
   \<and> (\<forall>i j. i < j \<and> j < length X \<and> X ! i = X ! j \<longrightarrow>
         pdist euclidean X ! condensed_index (length X) i j = 0
         \<and> (variance (X ! i) \<noteq> 0 \<longrightarrow>
              pdist correlation X ! condensed_index (length X) i j = Some 0))"
  by (simp add: euclidean_self correlation_self pdist_nth)

theorem identical_patterns_witness:
  "variance [1, 2, 3] \<noteq> 0
   \<and> euclidean [1, 2, 3] [1, 2, 3] = 0
   \<and> correlation [1, 2, 3] [1, 2, 3] = Some 0
   \<and> pdist correlation [[1, 2, 3], [0, 5], [1, 2, 3]] ! 1 = Some 0
   \<and> pdist euclidean [[1, 2, 3], [0, 5], [1, 2, 3]] ! 1 = 0"
proof -
  let ?u = "[1, 2, 3 :: real]"
  let ?X = "[?u, [0, 5], ?u]"
  note th = identical_patterns[of ?u ?X]
  have v: "variance ?u \<noteq> 0"
    by (simp add: variance_def centered_def mean_def dot_def)
  have ci: "condensed_index (length ?X) 0 2 = 1" by (simp add: condensed_index_def)
  have 1: "euclidean ?u ?u = 0" using th[THEN conjunct1] .
  have 2: "correlation ?u ?u = Some 0" using th[THEN conjunct2, THEN conjunct1] v by simp
  have "(0::nat) < 2 \<and> 2 < length ?X \<and> ?X ! 0 = ?X ! 2" by simp
  with th[THEN conjunct2, THEN conjunct2, rule_format, of 0 2]
  have "pdist euclidean ?X ! condensed_index (length ?X) 0 2 = 0
         \<and> (variance (?X ! 0) \<noteq> 0 \<longrightarrow>
              pdist correlation ?X ! condensed_index (length ?X) 0 2 = Some 0)" by blast
  then have 3: "pdist euclidean ?X ! 1 = 0 \<and> pdist correlation ?X ! 1 = Some 0"
    unfolding ci using v by simp
  show ?thesis using v 1 2 3 by simp
qed

subsection \<open>Rank correlation of an array with itself\<close>

lemma less_count_mono:
  fixes a :: "'a::linorder list"
  assumes "x < y"
  shows "length (filter (\<lambda>z. z < x) a) + length (filter (\<lambda>z. z = x) a)
         \<le> length (filter (\<lambda>z. z < y) a)"
  using assms by (induction a) auto

lemma avg_rank_less:
  "1 \<le> (ex::real) \<Longrightarrow> 1 \<le> ey \<Longrightarrow> lx + ex \<le> ly \<Longrightarrow> lx + (ex + 1) / 2 < ly + (ey + 1) / 2"
  by (simp add: field_simps)

lemma rank_strict:
  fixes a :: "'a::linorder list"
  assumes x: "x \<in> set a" and y: "y \<in> set a" and lt: "x < y"
  shows "real (length (filter (\<lambda>z. z < x) a)) + (real (length (filter (\<lambda>z. z = x) a)) + 1) / 2
       < real (length (filter (\<lambda>z. z < y) a)) + (real (length (filter (\<lambda>z. z = y) a)) + 1) / 2"
proof -
  let ?lx = "length (filter (\<lambda>z. z < x) a)" and ?ex = "length (filter (\<lambda>z. z = x) a)"
  let ?ly = "length (filter (\<lambda>z. z < y) a)" and ?ey = "length (filter (\<lambda>z. z = y) a)"
  have ex: "1 \<le> real ?ex" using eq_count_pos[OF x] by (metis Suc_leI of_nat_1 of_nat_le_iff One_nat_def)
  have ey: "1 \<le> real ?ey" using eq_count_pos[OF y] by (metis Suc_leI of_nat_1 of_nat_le_iff One_nat_def)
  have "?lx + ?ex \<le> ?ly" using lt by (rule less_count_mono)
  then have "real ?lx + real ?ex \<le> real ?ly" by (metis of_nat_add of_nat_le_iff)
  with ex ey show ?thesis by (rule avg_rank_less)
qed

lemma rankdata_distinct:
  fixes a :: "'a::linorder list"
  assumes x: "x \<in> set a" and y: "y \<in> set a" and ne: "x \<noteq> y"
  shows "\<exists>r \<in> set (rankdata a). \<exists>s \<in> set (rankdata a). r \<noteq> s"
proof -
  let ?rank = "\<lambda>x. real (length (filter (\<lambda>z. z < x) a))
      + (real (length (filter (\<lambda>z. z = x) a)) + 1) / 2"
  have mem: "?rank x \<in> set (rankdata a)" "?rank y \<in> set (rankdata a)"
    using x y by (auto simp: rankdata_def)
  have "?rank x \<noteq> ?rank y"
  proof (cases "x < y")
    case True
    from rank_strict[OF x y True] show ?thesis by simp
  next
    case False
    then have "y < x" using ne by simp
    from rank_strict[OF y x this] show ?thesis by simp
  qed
  with mem show ?thesis by blast
qed

lemma centered_zero_const:
  assumes "\<forall>c \<in> set (centered r). c = 0" and "p \<in> set r" and "q \<in> set r"
  shows "p = q"
proof -
  have "p - mean r \<in> set (centered r)" "q - mean r \<in> set (centered r)"
    using assms(2,3) by (simp_all add: centered_def)
  with assms(1) have "p - mean r = 0" "q - mean r = 0" by blast+
  then show ?thesis by simp
qed

text \<open>
  Claim C5, amended. For every dissimilarity array with at least two distinct entries, the
  Spearman rank correlation (average ranks for ties) of the array with itself is 1. For a
  constant array such as \<open>[1, 1]\<close> the ranks have zero variance and the correlation is
  undefined, as the closed example after the theorem shows.
\<close>

theorem spearman_self:
  fixes a :: "'a::linorder list"
  assumes x: "x \<in> set a" and y: "y \<in> set a" and ne: "x \<noteq> y"
  shows "spearmanr a a = Some 1"
proof -
  from rankdata_distinct[OF x y ne] obtain p q
    where pq: "p \<in> set (rankdata a)" "q \<in> set (rankdata a)" "p \<noteq> q" by blast
  have "dot (centered (rankdata a)) (centered (rankdata a)) \<noteq> 0"
  proof
    assume "dot (centered (rankdata a)) (centered (rankdata a)) = 0"
    then have "\<forall>c \<in> set (centered (rankdata a)). c = 0" by (simp add: dot_self_eq_0)
    from centered_zero_const[OF this pq(1,2)] pq(3) show False by simp
  qed
  then show ?thesis unfolding spearmanr_def by (rule pearsonr_self)
qed

theorem spearman_self_witness:
  "(1::real) \<in> set [1, 1/2, 1] \<and> (1/2::real) \<in> set [1, 1/2, 1] \<and> (1::real) \<noteq> 1/2
   \<and> spearmanr [1, 1/2, 1 :: real] [1, 1/2, 1] = Some 1"
proof -
  have 1: "(1::real) \<in> set [1, 1/2, 1]" by simp
  have 2: "(1/2::real) \<in> set [1, 1/2, 1]" by simp
  have 3: "(1::real) \<noteq> 1/2" by simp
  from spearman_self[OF 1 2 3] 1 2 3 show ?thesis by simp
qed

text \<open>A constant array: the rank correlation with itself is undefined, not 1.\<close>

theorem spearman_self_constant:
  "spearmanr [1, 1 :: real] [1, 1] = None \<and> spearmanr [1, 1 :: real] [1, 1] \<noteq> Some 1"
  by (simp add: spearmanr_def pearsonr_def rankdata_def centered_def mean_def dot_def)

end
